theory Spec2Isabelle
  imports Complex_Main
begin

section \<open>Values and failures\<close>

text \<open>
  The program is \<^verbatim>\<open>thesis_plots/recoil_rates/limit_setting.py\<close>. Python floats are
  modelled as reals; the one non-real float the program can produce by itself, the
  not-a-number that an interpolator returns outside its sample range, is a value of its
  own. Every exception is a value of \<open>error\<close>.
\<close>

datatype error = ValueError | TypeError | IndexError | OSError | ParserError | LibraryError

datatype num = Num real | NaN

section \<open>The interpolation library\<close>

text \<open>
  \<^verbatim>\<open>scipy.interpolate.interp1d(x, y, fill_value=..., bounds_error=False)\<close> with the
  default linear kind is not code of the repository. Its model follows the library's
  documented behaviour: the samples are sorted by their abscissa (stable), a query outside
  the sampled range gives the fill value, a query inside gives the value on the segment
  between the two neighbouring samples. The constructor rejects samples of different
  lengths and samples with fewer than \<open>minval\<close> entries; that least number of entries
  (one or two, by the release of the library) is a parameter.
\<close>

record interp =
  pts :: "(real \<times> real) list"
  fill_value :: num

definition interp1d :: "nat \<Rightarrow> real list \<Rightarrow> real list \<Rightarrow> num \<Rightarrow> error + interp" where
  "interp1d minval x y fill =
     (if length x \<noteq> length y then Inl ValueError
      else if length x < minval then Inl ValueError
      else Inr \<lparr>pts = sort_key fst (zip x y), fill_value = fill\<rparr>)"

fun lin_interp :: "(real \<times> real) list \<Rightarrow> real \<Rightarrow> real" where
  "lin_interp [] x = 0"
| "lin_interp [(x0, y0)] x = y0"
| "lin_interp ((x0, y0) # (x1, y1) # ps) x =
     (if x < x1 then (y1 - y0) / (x1 - x0) * (x - x0) + y0
      else lin_interp ((x1, y1) # ps) x)"

definition itp_call :: "interp \<Rightarrow> real \<Rightarrow> num" where
  "itp_call itp x_new =
     (case pts itp of
        [] \<Rightarrow> fill_value itp
      | p # ps \<Rightarrow>
          if x_new < fst p \<or> fst (last (p # ps)) < x_new then fill_value itp
          else Num (lin_interp (p # ps) x_new))"

section \<open>The cross-section grid\<close>

text \<open>\<^verbatim>\<open>np.linspace(start, stop, num)\<close>: \<open>num\<close> evenly spaced values, both ends included;
  a negative \<open>num\<close> raises.\<close>

definition linspace :: "real \<Rightarrow> real \<Rightarrow> int \<Rightarrow> error + real list" where
  "linspace start stop n =
     (if n < 0 then Inl ValueError
      else if n = 1 then Inr [start]
      else Inr (map (\<lambda>i. start + real i * ((stop - start) / real_of_int (n - 1))) [0..<nat n]))"

section \<open>The limit solver\<close>

definition no_background_possion :: real where
  "no_background_possion = 23 / 10"

text \<open>
  The loop of \<^verbatim>\<open>LimitSetter._get_limit\<close>. The rate integrator is the method
  \<^verbatim>\<open>self.integrate_rate\<close>, a parameter here (a test replaces it by a mock); it may
  raise. \<open>n_observed\<close> is the list the loop appends to; \<open>seen\<close> records, in order, the
  grid values at which the integrator has been called.
\<close>

fun scan :: "(real \<Rightarrow> real \<Rightarrow> error + real) \<Rightarrow> real \<Rightarrow> real list \<Rightarrow> real list \<Rightarrow> real list
    \<Rightarrow> real list \<times> (error + real list)" where
  "scan integ mw [] n_observed seen = (seen, Inr n_observed)"
| "scan integ mw (s # rest) n_observed seen =
     (case integ mw s of
        Inl e \<Rightarrow> (seen @ [s], Inl e)
      | Inr n_i \<Rightarrow>
          if n_i > no_background_possion then (seen @ [s], Inr (n_observed @ [n_i]))
          else scan integ mw rest (n_observed @ [n_i]) (seen @ [s]))"

text \<open>
  \<^verbatim>\<open>_get_limit(results, sigmas, result_i, mw)\<close>: the interpolator maps the counts
  collected to \<^verbatim>\<open>10**sigmas[:len(n_observed)]\<close> and is called at the threshold; the
  value goes to \<^verbatim>\<open>results[result_i]\<close>. The updated list is returned.
\<close>

definition get_limit :: "nat \<Rightarrow> (real \<Rightarrow> real \<Rightarrow> error + real) \<Rightarrow> num list \<Rightarrow> real list \<Rightarrow> nat
    \<Rightarrow> real \<Rightarrow> error + num list" where
  "get_limit minval integ results sigmas result_i mw =
     (case snd (scan integ mw sigmas [] []) of
        Inl e \<Rightarrow> Inl e
      | Inr n_observed \<Rightarrow>
          (case interp1d minval n_observed
                  (map (\<lambda>s. 10 powr s) (take (length n_observed) sigmas)) NaN of
             Inl e \<Rightarrow> Inl e
           | Inr itp \<Rightarrow>
               if result_i < length results
               then Inr (results[result_i := itp_call itp no_background_possion])
               else Inl IndexError))"

section \<open>The scan scheduler\<close>

text \<open>
  \<^verbatim>\<open>LimitSetter.set_limits\<close> starts one thread per mass and polls. The interleaving of
  the main thread with the solve threads is a list of events: \<open>Tick\<close> lets the main
  thread run one loop test with the branch it selects, \<open>Finish j\<close> lets the thread of
  mass index \<open>j\<close> run to its end (it writes its slot, or dies with its exception, which
  the threading library prints and drops). The sleeps and the progress line have no
  effect on the state.
\<close>

datatype event = Tick | Finish nat

datatype pc = Launch nat | Join | Returned

record sched =
  pc :: pc
  threads :: "nat list"
  alive :: "nat set"
  results :: "num list"
  n_alive :: int

definition step :: "(num list \<Rightarrow> nat \<Rightarrow> real \<Rightarrow> error + num list) \<Rightarrow> real list \<Rightarrow> int
    \<Rightarrow> sched \<Rightarrow> event \<Rightarrow> sched" where
  "step target mass_range n_threads st ev =
     (case ev of
        Finish j \<Rightarrow>
          if j \<in> alive st then
            (case target (results st) j (mass_range ! j) of
               Inl e \<Rightarrow> st\<lparr>alive := alive st - {j}\<rparr>
             | Inr r \<Rightarrow> st\<lparr>alive := alive st - {j}, results := r\<rparr>)
          else st
      | Tick \<Rightarrow>
          (case pc st of
             Launch result_i \<Rightarrow>
               if result_i < length mass_range then
                 if int (length (threads st)) > n_threads
                 then st\<lparr>threads := filter (\<lambda>t. t \<in> alive st) (threads st)\<rparr>
                 else st\<lparr>pc := Launch (Suc result_i),
                         threads := threads st @ [result_i],
                         alive := insert result_i (alive st)\<rparr>
               else st\<lparr>pc := Join, n_alive := n_threads\<rparr>
           | Join \<Rightarrow>
               if n_alive st \<noteq> 0
               then st\<lparr>n_alive := int (length (filter (\<lambda>t. t \<in> alive st) (threads st)))\<rparr>
               else st\<lparr>pc := Returned\<rparr>
           | Returned \<Rightarrow> st))"

definition init :: "real list \<Rightarrow> sched" where
  "init mass_range =
     \<lparr>pc = Launch 0, threads = [], alive = {},
      results = replicate (length mass_range) (Num 0), n_alive = 0\<rparr>"

definition run :: "(num list \<Rightarrow> nat \<Rightarrow> real \<Rightarrow> error + num list) \<Rightarrow> real list \<Rightarrow> int
    \<Rightarrow> event list \<Rightarrow> sched" where
  "run target mass_range n_threads evs =
     foldl (step target mass_range n_threads) (init mass_range) evs"

text \<open>
  The outcome of a call under an interleaving: an exception of the main thread, the
  returned array, or no return within the events given.
\<close>

datatype outcome = Raised error | Returns "num list" | Running

definition set_limits :: "nat \<Rightarrow> (real \<Rightarrow> real \<Rightarrow> error + real) \<Rightarrow> real list \<Rightarrow> real \<times> real
    \<Rightarrow> int \<Rightarrow> int \<Rightarrow> event list \<Rightarrow> outcome" where
  "set_limits minval integ mass_range log_sigma_range n_sigma_bins n_threads evs =
     (case linspace (fst log_sigma_range) (snd log_sigma_range) n_sigma_bins of
        Inl e \<Rightarrow> Raised e
      | Inr sigmas \<Rightarrow>
          (let st = run (\<lambda>results result_i mw. get_limit minval integ results sigmas result_i mw)
                      mass_range n_threads evs
           in if pc st = Returned then Returns (results st) else Running))"

section \<open>The detector\<close>

text \<open>
  Class \<^verbatim>\<open>LZ\<close>. The data frame read from the efficiency file is the list of its
  columns (\<^verbatim>\<open>eff.values.T\<close>). What \<^verbatim>\<open>pd.read_table\<close> does at the time of a call is the
  parameter \<open>read_table\<close>: the frame, or the exception of a missing or unreadable file.
  The state is the memo of \<^verbatim>\<open>lru_cache\<close> on \<^verbatim>\<open>get_eff\<close> (an exception is not
  memoised) and the attribute \<^verbatim>\<open>_itp\<close>.
\<close>

type_synonym table = "real list list"

record lz_state =
  eff_cache :: "table option"
  LZ_itp :: "interp option"

definition exposure :: real where "exposure = 9 / 10"

definition efficiency :: real where "efficiency = 1"

definition e_roi :: "real \<times> real" where "e_roi = (0, 70)"

definition material :: string where "material = ''Xe''"

text \<open>The class has no constructor of its own: \<^verbatim>\<open>LZ()\<close> reads nothing, whatever the
  file system holds, and leaves \<^verbatim>\<open>_itp\<close> at the class attribute \<^verbatim>\<open>None\<close>.\<close>

definition LZ_new :: "error + table \<Rightarrow> table option \<Rightarrow> error + lz_state" where
  "LZ_new read_table memo = Inr \<lparr>eff_cache = memo, LZ_itp = None\<rparr>"

definition get_eff :: "error + table \<Rightarrow> lz_state \<Rightarrow> (error + table) \<times> lz_state" where
  "get_eff read_table st =
     (case eff_cache st of
        Some t \<Rightarrow> (Inr t, st)
      | None \<Rightarrow>
          (case read_table of
             Inl e \<Rightarrow> (Inl e, st)
           | Inr t \<Rightarrow> (Inr t, st\<lparr>eff_cache := Some t\<rparr>)))"

text \<open>\<^verbatim>\<open>interp1d(*eff.values.T[:2], fill_value=0, bounds_error=False)\<close>: the first two
  columns are the two positional arguments; with fewer columns the call lacks an
  argument, a \<^verbatim>\<open>TypeError\<close>.\<close>

definition itp_eff :: "nat \<Rightarrow> error + table \<Rightarrow> lz_state \<Rightarrow> (error + interp) \<times> lz_state" where
  "itp_eff minval read_table st =
     (case LZ_itp st of
        Some f \<Rightarrow> (Inr f, st)
      | None \<Rightarrow>
          (case get_eff read_table st of
             (Inl e, st') \<Rightarrow> (Inl e, st')
           | (Inr eff, st') \<Rightarrow>
               (case take 2 eff of
                  [x, y] \<Rightarrow>
                    (case interp1d minval x y (Num 0) of
                       Inl e \<Rightarrow> (Inl e, st')
                     | Inr f \<Rightarrow> (Inr f, st'\<lparr>LZ_itp := Some f\<rparr>))
                | _ \<Rightarrow> (Inl TypeError, st'))))"

definition combined_efficiency :: "nat \<Rightarrow> error + table \<Rightarrow> lz_state \<Rightarrow> real
    \<Rightarrow> (error + num) \<times> lz_state" where
  "combined_efficiency minval read_table st e_nr =
     (case itp_eff minval read_table st of
        (Inl e, st') \<Rightarrow> (Inl e, st')
      | (Inr interpolator, st') \<Rightarrow> (Inr (itp_call interpolator e_nr), st'))"

section \<open>The rate integrator\<close>

text \<open>
  \<^verbatim>\<open>scipy.integrate.quad\<close> is not code of the repository. Its model: an adaptive rule
  asks for the integrand at one point after another, each choice depending on the values
  it has seen, and returns a weighted sum of the values. A \<open>plan\<close> is that decision
  tree; the library's rule for an interval is the parameter \<open>quad\<close>. A not-a-number
  among the values makes the sum not-a-number.
\<close>

datatype plan = Done "real list" | Ask real "num \<Rightarrow> plan"

fun wsum :: "real list \<Rightarrow> num list \<Rightarrow> num" where
  "wsum (w # ws) (Num v # vs) = (case wsum ws vs of Num r \<Rightarrow> Num (w * v + r) | NaN \<Rightarrow> NaN)"
| "wsum (w # ws) (NaN # vs) = NaN"
| "wsum ws vs = Num 0"

primrec run_plan :: "plan \<Rightarrow> (real \<Rightarrow> 's \<Rightarrow> (error + num) \<times> 's) \<Rightarrow> num list \<Rightarrow> 's
    \<Rightarrow> (error + num) \<times> 's" where
  "run_plan (Done ws) f vals st = (Inr (wsum ws vals), st)"
| "run_plan (Ask x k) f vals st =
     (case f x st of
        (Inl e, st') \<Rightarrow> (Inl e, st')
      | (Inr v, st') \<Rightarrow> run_plan (k v) f (vals @ [v]) st')"

text \<open>The points a plan asks for lie in the interval of integration.\<close>

primrec nodes_within :: "real \<Rightarrow> real \<Rightarrow> plan \<Rightarrow> bool" where
  "nodes_within a b (Done ws) = True"
| "nodes_within a b (Ask x k) = (a \<le> x \<and> x \<le> b \<and> (\<forall>v. nodes_within a b (k v)))"

text \<open>The unit constants of \<^verbatim>\<open>numericalunits\<close> and the differential rate
  \<^verbatim>\<open>wimprates.rate_wimp\<close> (energy, mass, cross-section, interaction, material, halo
  model) are parameters; the rate may raise.\<close>

record units =
  eV :: real
  keV :: real
  GeV :: real
  c0 :: real
  cm :: real
  kg :: real
  year :: real

type_synonym 'h rate_fn = "real \<Rightarrow> real \<Rightarrow> real \<Rightarrow> string \<Rightarrow> string \<Rightarrow> 'h \<Rightarrow> error + real"

definition d_rate :: "units \<Rightarrow> 'h rate_fn \<Rightarrow> 'h \<Rightarrow> nat \<Rightarrow> error + table \<Rightarrow> real \<Rightarrow> real
    \<Rightarrow> real \<Rightarrow> lz_state \<Rightarrow> (error + num) \<times> lz_state" where
  "d_rate nu rate_wimp halo_model minval read_table mw log_cross_section e_nr st =
     (case combined_efficiency minval read_table st e_nr of
        (Inl e, st') \<Rightarrow> (Inl e, st')
      | (Inr eff, st') \<Rightarrow>
          if (case eff of Num r \<Rightarrow> r < 1 / 10 ^ 6 | NaN \<Rightarrow> False) then (Inr (Num 0), st')
          else
            (case rate_wimp (e_nr * 1000 * eV nu) (mw * GeV nu / c0 nu ^ 2)
                    (10 powr log_cross_section * cm nu ^ 2) ''SI'' material halo_model of
               Inl e \<Rightarrow> (Inl e, st')
             | Inr r \<Rightarrow>
                 (Inr (case eff of
                         Num f \<Rightarrow> Num (r * (keV nu * (1000 * kg nu) * year nu) * f)
                       | NaN \<Rightarrow> NaN), st')))"

definition integrate_rate :: "(real \<Rightarrow> real \<Rightarrow> plan) \<Rightarrow> units \<Rightarrow> 'h rate_fn \<Rightarrow> 'h \<Rightarrow> nat
    \<Rightarrow> error + table \<Rightarrow> real \<Rightarrow> real \<Rightarrow> lz_state \<Rightarrow> (error + num) \<times> lz_state" where
  "integrate_rate quad nu rate_wimp halo_model minval read_table mw log_cross_section st =
     (case run_plan (quad (fst e_roi) (snd e_roi))
             (d_rate nu rate_wimp halo_model minval read_table mw log_cross_section) [] st of
        (Inl e, st') \<Rightarrow> (Inl e, st')
      | (Inr total_rate, st') \<Rightarrow>
          (Inr (case total_rate of
                  Num t \<Rightarrow> Num (t * (exposure * efficiency))
                | NaN \<Rightarrow> NaN), st'))"

section \<open>Invariants of the scheduler\<close>

text \<open>
  \<open>launched n p k\<close>: the thread of index \<open>k\<close> has been started when the main thread
  stands at \<open>p\<close>. \<open>slot_local\<close>: a thread target writes its own slot only, and whether
  it raises does not depend on the vector. \<open>slot_value\<close>: what the task of index \<open>k\<close>
  leaves in slot \<open>k\<close> of a fresh vector (the initial 0 when it raises).
\<close>

definition launched :: "nat \<Rightarrow> pc \<Rightarrow> nat \<Rightarrow> bool" where
  "launched n p k = (case p of Launch i \<Rightarrow> k < i | _ \<Rightarrow> k < n)"

definition slot_local :: "(num list \<Rightarrow> nat \<Rightarrow> real \<Rightarrow> error + num list) \<Rightarrow> bool" where
  "slot_local target =
     (\<forall>rs rs' i mw. i < length rs \<longrightarrow> i < length rs' \<longrightarrow>
        target rs i mw = (case target rs' i mw of Inl e \<Rightarrow> Inl e | Inr r' \<Rightarrow> Inr (rs[i := r' ! i])))"

definition slot_value :: "(num list \<Rightarrow> nat \<Rightarrow> real \<Rightarrow> error + num list) \<Rightarrow> real list \<Rightarrow> nat \<Rightarrow> num" where
  "slot_value target mass_range k =
     (case target (replicate (length mass_range) (Num 0)) k (mass_range ! k) of
        Inl e \<Rightarrow> Num 0 | Inr r \<Rightarrow> r ! k)"

definition sched_inv :: "(num list \<Rightarrow> nat \<Rightarrow> real \<Rightarrow> error + num list) \<Rightarrow> real list \<Rightarrow> sched \<Rightarrow> bool" where
  "sched_inv target mass_range st =
     (length (results st) = length mass_range \<and>
      alive st \<subseteq> set (threads st) \<and>
      (\<forall>k\<in>alive st. launched (length mass_range) (pc st) k) \<and>
      (\<forall>k. launched (length mass_range) (pc st) k \<longrightarrow> k < length mass_range) \<and>
      (\<forall>k<length mass_range. results st ! k =
         (if launched (length mass_range) (pc st) k \<and> k \<notin> alive st
          then slot_value target mass_range k else Num 0)))"

definition join_inv :: "sched \<Rightarrow> bool" where
  "join_inv st =
     (alive st \<subseteq> set (threads st) \<and>
      (pc st = Join \<and> n_alive st = 0 \<longrightarrow> alive st = {}) \<and>
      (pc st = Returned \<longrightarrow> alive st = {}))"

section \<open>The loop of the limit solver\<close>

lemma scan_stop:
  "j < length ss \<Longrightarrow>
   (\<forall>i\<le>j. integ mw (ss ! i) = Inr (cnt (ss ! i))) \<Longrightarrow>
   (\<forall>i<j. \<not> cnt (ss ! i) > no_background_possion) \<Longrightarrow>
   cnt (ss ! j) > no_background_possion \<Longrightarrow>
   scan integ mw ss n_observed seen =
     (seen @ take (Suc j) ss, Inr (n_observed @ map cnt (take (Suc j) ss)))"
proof (induction ss arbitrary: j n_observed seen)
  case Nil
  then show ?case by simp
next
  case (Cons s rest)
  have h0: "integ mw s = Inr (cnt s)" using Cons.prems(2) by force
  show ?case
  proof (cases j)
    case 0
    then show ?thesis using Cons.prems h0 by simp
  next
    case (Suc k)
    have a: "k < length rest" using Cons.prems(1) Suc by simp
    have b: "\<forall>i\<le>k. integ mw (rest ! i) = Inr (cnt (rest ! i))"
      using Cons.prems(2) Suc by (metis Suc_le_mono nth_Cons_Suc)
    have c: "\<forall>i<k. \<not> cnt (rest ! i) > no_background_possion"
      using Cons.prems(3) Suc by (metis Suc_less_eq nth_Cons_Suc)
    have d: "cnt (rest ! k) > no_background_possion" using Cons.prems(4) Suc by simp
    have e: "\<not> cnt s > no_background_possion" using Cons.prems(3) Suc by force
    show ?thesis using Cons.IH[OF a b c d] h0 e Suc by simp
  qed
qed

text \<open>
  Claim C4. When the count first exceeds 2.3 at grid index \<open>j\<close> (the integrator returning
  normally up to there), the integrator has been called at the grid values of indices
  \<open>0..j\<close>, in the order of the grid, and at no later one; the interpolator is built over
  exactly the counts and cross-sections of these indices and is called at 2.3, and that
  value is what the solver stores.
\<close>

theorem get_limit_early_stop:
  assumes "j < length sigmas"
    and "\<forall>i\<le>j. integ mw (sigmas ! i) = Inr (cnt (sigmas ! i))"
    and "\<forall>i<j. \<not> cnt (sigmas ! i) > no_background_possion"
    and "cnt (sigmas ! j) > no_background_possion"
    and "result_i < length rs"
  shows "fst (scan integ mw sigmas [] []) = take (Suc j) sigmas \<and>
         snd (scan integ mw sigmas [] []) = Inr (map cnt (take (Suc j) sigmas)) \<and>
         get_limit minval integ rs sigmas result_i mw =
           (case interp1d minval (map cnt (take (Suc j) sigmas))
                   (map (\<lambda>s. 10 powr s) (take (Suc j) sigmas)) NaN of
              Inl e \<Rightarrow> Inl e
            | Inr itp \<Rightarrow> Inr (rs[result_i := itp_call itp no_background_possion]))"
proof -
  have sc: "scan integ mw sigmas [] [] = (take (Suc j) sigmas, Inr (map cnt (take (Suc j) sigmas)))"
    using scan_stop[of j sigmas integ mw cnt "[]" "[]"] assms(1-4) by simp
  have m: "min (length sigmas) (Suc j) = Suc j" using assms(1) by simp
  show ?thesis
    using assms(5) by (simp add: sc get_limit_def m cong: sum.case_cong)
qed

theorem get_limit_early_stop_witness:
  "fst (scan (\<lambda>m s. Inr (1 + 2 * s)) 50 [0, 1, 2] [] []) = [0, 1] \<and>
   get_limit 2 (\<lambda>m s. Inr (1 + 2 * s)) [Num 0] [0, 1, 2] 0 50 = Inr [Num (137 / 20)]"
  using get_limit_early_stop[of 1 "[0, 1, 2]" "\<lambda>m s. Inr (1 + 2 * s)" 50 "\<lambda>s. 1 + 2 * s" 0 "[Num 0]" 2]
  by (simp add: no_background_possion_def less_Suc_eq_le le_Suc_eq interp1d_def itp_call_def)

section \<open>The scheduler keeps its invariants\<close>

lemma sched_inv_init: "sched_inv target mass_range (init mass_range)"
  by (simp add: sched_inv_def init_def launched_def)

lemma sched_inv_step:
  assumes loc: "slot_local target" and inv: "sched_inv target mass_range st"
  shows "sched_inv target mass_range (step target mass_range n_threads st ev)"
proof (cases ev)
  case Tick
  show ?thesis
  proof (cases "pc st")
    case (Launch i)
    then show ?thesis using inv Tick
      by (auto simp: sched_inv_def step_def launched_def less_Suc_eq)
  next
    case Join
    then show ?thesis using inv Tick by (auto simp: sched_inv_def step_def launched_def)
  next
    case Returned
    then show ?thesis using inv Tick by (auto simp: sched_inv_def step_def launched_def)
  qed
next
  case (Finish j)
  show ?thesis
  proof (cases "j \<in> alive st")
    case False
    then show ?thesis using inv Finish by (simp add: step_def)
  next
    case True
    let ?n = "length mass_range"
    have jn: "j < ?n" using inv True by (auto simp: sched_inv_def)
    have len: "length (results st) = ?n" using inv by (simp add: sched_inv_def)
    have tg: "target (results st) j (mass_range ! j) =
        (case target (replicate ?n (Num 0)) j (mass_range ! j) of
           Inl e \<Rightarrow> Inl e | Inr r' \<Rightarrow> Inr ((results st)[j := r' ! j]))"
      using loc jn len unfolding slot_local_def by simp
    show ?thesis
    proof (cases "target (replicate ?n (Num 0)) j (mass_range ! j)")
      case (Inl e)
      then have st': "step target mass_range n_threads st ev = st\<lparr>alive := alive st - {j}\<rparr>"
        using Finish True tg by (simp add: step_def)
      have sv: "slot_value target mass_range j = Num 0" using Inl by (simp add: slot_value_def)
      show ?thesis unfolding st' using inv sv True
        by (auto simp: sched_inv_def)
    next
      case (Inr r')
      then have st': "step target mass_range n_threads st ev =
          st\<lparr>alive := alive st - {j}, results := (results st)[j := r' ! j]\<rparr>"
        using Finish True tg by (simp add: step_def)
      have sv: "slot_value target mass_range j = r' ! j" using Inr by (simp add: slot_value_def)
      show ?thesis unfolding st' using inv sv True len
        by (auto simp: sched_inv_def nth_list_update)
    qed
  qed
qed

lemma sched_inv_foldl:
  "slot_local target \<Longrightarrow> sched_inv target mass_range st \<Longrightarrow>
   sched_inv target mass_range (foldl (step target mass_range n_threads) st evs)"
  by (induction evs arbitrary: st) (auto intro: sched_inv_step)

lemma sched_inv_run:
  "slot_local target \<Longrightarrow> sched_inv target mass_range (run target mass_range n_threads evs)"
  unfolding run_def by (rule sched_inv_foldl[OF _ sched_inv_init])

lemma join_inv_init: "join_inv (init mass_range)"
  by (simp add: join_inv_def init_def)

lemma filter_empty_alive:
  "A \<subseteq> set ts \<Longrightarrow> filter (\<lambda>t. t \<in> A) ts = [] \<Longrightarrow> A = {}"
  by (auto simp: filter_empty_conv)

lemma join_inv_step:
  assumes "n_threads \<noteq> 0" and inv: "join_inv st"
  shows "join_inv (step target mass_range n_threads st ev)"
proof (cases ev)
  case Tick
  show ?thesis
  proof (cases "pc st")
    case (Launch i)
    then show ?thesis using inv Tick assms(1)
      by (auto simp: join_inv_def step_def)
  next
    case Join
    then show ?thesis using inv Tick filter_empty_alive[of "alive st" "threads st"]
      by (auto simp: join_inv_def step_def)
  next
    case Returned
    then show ?thesis using inv Tick by (auto simp: join_inv_def step_def)
  qed
next
  case (Finish j)
  then show ?thesis using inv
    by (auto simp: join_inv_def step_def split: sum.splits)
qed

lemma join_inv_run:
  assumes "n_threads \<noteq> 0"
  shows "join_inv (run target mass_range n_threads evs)"
proof -
  have "join_inv st \<Longrightarrow> join_inv (foldl (step target mass_range n_threads) st evs)" for st
    by (induction evs arbitrary: st) (auto intro: join_inv_step[OF assms])
  then show ?thesis unfolding run_def using join_inv_init by blast
qed

lemma returned_slots:
  assumes "slot_local target" and "n_threads \<noteq> 0"
    and "pc (run target mass_range n_threads evs) = Returned"
    and "k < length mass_range"
  shows "results (run target mass_range n_threads evs) ! k = slot_value target mass_range k"
proof -
  let ?st = "run target mass_range n_threads evs"
  have a: "alive ?st = {}" using join_inv_run[OF assms(2), of target mass_range evs] assms(3)
    by (simp add: join_inv_def)
  have "sched_inv target mass_range ?st" using sched_inv_run[OF assms(1)] .
  then show ?thesis using a assms(3,4) by (simp add: sched_inv_def launched_def)
qed

lemma failed_slot:
  assumes "slot_local target" and "k < length mass_range"
    and "target (replicate (length mass_range) (Num 0)) k (mass_range ! k) = Inl e"
  shows "results (run target mass_range n_threads evs) ! k = Num 0"
proof -
  have "sched_inv target mass_range (run target mass_range n_threads evs)"
    using sched_inv_run[OF assms(1)] .
  moreover have "slot_value target mass_range k = Num 0" using assms(3) by (simp add: slot_value_def)
  ultimately show ?thesis using assms(2) by (simp add: sched_inv_def)
qed

lemma any_slot:
  assumes "slot_local target" and "k < length mass_range"
  shows "results (run target mass_range n_threads evs) ! k = Num 0 \<or>
         results (run target mass_range n_threads evs) ! k = slot_value target mass_range k"
  using sched_inv_run[OF assms(1), of mass_range n_threads evs] assms(2)
  by (simp add: sched_inv_def)

lemma results_length:
  "slot_local target \<Longrightarrow> length (results (run target mass_range n_threads evs)) = length mass_range"
  using sched_inv_run[of target mass_range n_threads evs] by (simp add: sched_inv_def)

lemma get_limit_slot_local:
  "slot_local (\<lambda>rs i mw. get_limit minval integ rs sigmas i mw)"
  unfolding slot_local_def get_limit_def
  by (auto split: sum.splits)

text \<open>
  Under some interleaving the call returns: each thread is left to finish before the
  next test of the main thread.
\<close>

lemma reach_returned:
  assumes nt: "0 \<le> n_threads"
  shows "pc st = Launch i \<Longrightarrow> alive st = {} \<Longrightarrow>
         \<exists>evs. pc (foldl (step target mass_range n_threads) st evs) = Returned"
proof (induction "length mass_range - i" arbitrary: i st)
  case 0
  then have ge: "\<not> i < length mass_range" by simp
  let ?s = "step target mass_range n_threads"
  have "pc (foldl ?s st [Tick, Tick, Tick]) = Returned"
    using 0(2,3) ge by (simp add: step_def)
  then show ?case by blast
next
  case (Suc d)
  then have lt: "i < length mass_range" by simp
  let ?s = "step target mass_range n_threads"
  obtain pre where pre: "pc (foldl ?s st pre) = Launch (Suc i)" "alive (foldl ?s st pre) = {}"
  proof (cases "int (length (threads st)) > n_threads")
    case True
    have "pc (foldl ?s st [Tick, Tick, Finish i]) = Launch (Suc i) \<and>
          alive (foldl ?s st [Tick, Tick, Finish i]) = {}"
      using Suc(3,4) lt True nt by (simp add: step_def split: sum.splits)
    then show ?thesis using that by blast
  next
    case False
    have "pc (foldl ?s st [Tick, Finish i]) = Launch (Suc i) \<and>
          alive (foldl ?s st [Tick, Finish i]) = {}"
      using Suc(3,4) lt False by (simp add: step_def split: sum.splits)
    then show ?thesis using that by blast
  qed
  have d: "d = length mass_range - Suc i" using Suc(2) by simp
  obtain evs where "pc (foldl ?s (foldl ?s st pre) evs) = Returned"
    using Suc(1)[OF d pre] by blast
  then have "pc (foldl ?s st (pre @ evs)) = Returned" by simp
  then show ?case by blast
qed

lemma run_returns:
  "0 \<le> n_threads \<Longrightarrow> \<exists>evs. pc (run target mass_range n_threads evs) = Returned"
  unfolding run_def using reach_returned[of n_threads "init mass_range" 0 target mass_range]
  by (simp add: init_def)

lemma set_limits_run:
  "linspace (fst r) (snd r) nb = Inr sigmas \<Longrightarrow>
   set_limits minval integ mass_range r nb n_threads evs =
     (if pc (run (\<lambda>rs i mw. get_limit minval integ rs sigmas i mw) mass_range n_threads evs) = Returned
      then Returns (results (run (\<lambda>rs i mw. get_limit minval integ rs sigmas i mw) mass_range n_threads evs))
      else Running)"
  by (simp add: set_limits_def Let_def)

lemma linspace_0_1_2: "linspace 0 1 2 = Inr [0, 1]"
  by (simp add: linspace_def eval_nat_numeral upt_rec)

section \<open>The concurrency cap\<close>

text \<open>
  The list \<open>threads\<close> never holds more than \<open>n_threads + 1\<close> entries, and every live
  thread is in it: the launch test is \<^verbatim>\<open>len(threads) > n_threads\<close>, so a launch happens
  with \<open>n_threads\<close> threads possibly alive.
\<close>

lemma alive_bound_step:
  assumes "alive st \<subseteq> set (threads st)" "int (length (threads st)) \<le> n_threads + 1"
  shows "alive (step target mass_range n_threads st ev) \<subseteq> set (threads (step target mass_range n_threads st ev)) \<and>
         int (length (threads (step target mass_range n_threads st ev))) \<le> n_threads + 1"
proof -
  have "length (filter (\<lambda>t. t \<in> alive st) (threads st)) \<le> length (threads st)" by simp
  then have "int (length (filter (\<lambda>t. t \<in> alive st) (threads st))) \<le> n_threads + 1"
    using assms(2) by linarith
  then show ?thesis using assms
    by (cases ev; cases "pc st") (auto simp: step_def split: sum.splits)
qed

lemma alive_bound:
  assumes "0 \<le> n_threads"
  shows "int (card (alive (run target mass_range n_threads evs))) \<le> n_threads + 1"
proof -
  let ?s = "step target mass_range n_threads"
  have "alive st \<subseteq> set (threads st) \<and> int (length (threads st)) \<le> n_threads + 1 \<Longrightarrow>
        alive (foldl ?s st evs) \<subseteq> set (threads (foldl ?s st evs)) \<and>
        int (length (threads (foldl ?s st evs))) \<le> n_threads + 1" for st
    by (induction evs arbitrary: st) (auto dest: alive_bound_step)
  from this[of "init mass_range"] assms
  have a: "alive (run target mass_range n_threads evs) \<subseteq> set (threads (run target mass_range n_threads evs))"
    and b: "int (length (threads (run target mass_range n_threads evs))) \<le> n_threads + 1"
    by (simp_all add: run_def init_def)
  have "card (alive (run target mass_range n_threads evs)) \<le> card (set (threads (run target mass_range n_threads evs)))"
    using a by (simp add: card_mono)
  also have "\<dots> \<le> length (threads (run target mass_range n_threads evs))" by (rule card_length)
  finally show ?thesis using b by linarith
qed

text \<open>
  Claim C1. With \<open>n_threads = 1\<close> and two masses, the main thread starts the second
  thread while the first is alive (its second launch test reads \<open>1 > 1\<close>): two solve
  tasks are alive together, more than the limit 1 the claim states.
\<close>

theorem two_tasks_overlap:
  "card (alive (run target [50, 100] 1 [Tick, Tick])) = 2"
  by (simp add: run_def init_def step_def)

section \<open>A failing solve task\<close>

text \<open>
  Claim C2, as stated, fails: with an integrator that raises, the thread of mass index 0
  dies, and the call returns normally with slot 0 at its initial 0.
\<close>

theorem failed_task_returns_zero:
  "get_limit 2 (\<lambda>m s. Inl LibraryError) [Num 0] [0, 1] 0 50 = Inl LibraryError \<and>
   set_limits 2 (\<lambda>m s. Inl LibraryError) [50] (0, 1) 2 1 [Tick, Finish 0, Tick, Tick, Tick]
     = Returns [Num 0]"
  by (simp add: set_limits_def linspace_0_1_2 get_limit_def run_def init_def step_def)

text \<open>
  Claim C2, amended. If the solve task of mass index \<open>i\<close> raises, the call raises nothing
  under any interleaving, it returns under some, and whenever it returns, slot \<open>i\<close> holds
  the initial 0.
\<close>

theorem failed_task_slot:
  assumes "linspace (fst r) (snd r) nb = Inr sigmas"
    and "i < length mass_range"
    and "get_limit minval integ (replicate (length mass_range) (Num 0)) sigmas i (mass_range ! i) = Inl e"
    and "0 \<le> n_threads"
  shows "(\<exists>evs rs. set_limits minval integ mass_range r nb n_threads evs = Returns rs) \<and>
         (\<forall>evs e'. set_limits minval integ mass_range r nb n_threads evs \<noteq> Raised e') \<and>
         (\<forall>evs rs. set_limits minval integ mass_range r nb n_threads evs = Returns rs
            \<longrightarrow> rs ! i = Num 0)"
proof -
  let ?t = "\<lambda>rs i mw. get_limit minval integ rs sigmas i mw"
  have loc: "slot_local ?t" by (rule get_limit_slot_local)
  obtain evs where "pc (run ?t mass_range n_threads evs) = Returned"
    using run_returns[OF assms(4)] by blast
  then have 1: "\<exists>evs rs. set_limits minval integ mass_range r nb n_threads evs = Returns rs"
    using set_limits_run[OF assms(1)] by auto
  have 2: "\<forall>evs e'. set_limits minval integ mass_range r nb n_threads evs \<noteq> Raised e'"
    using set_limits_run[OF assms(1)] by auto
  have "results (run ?t mass_range n_threads evs) ! i = Num 0" for evs
    using failed_slot[of ?t i mass_range e n_threads evs] loc assms(2,3) by simp
  then have 3: "\<forall>evs rs. set_limits minval integ mass_range r nb n_threads evs = Returns rs
            \<longrightarrow> rs ! i = Num 0"
    using set_limits_run[OF assms(1), of minval integ mass_range n_threads] by (auto split: if_splits)
  show ?thesis using 1 2 3 by blast
qed

theorem failed_task_slot_witness:
  "\<exists>evs rs. set_limits 2 (\<lambda>m s. Inl LibraryError) [50] (0, 1) 2 1 evs = Returns rs \<and> rs ! 0 = Num 0"
proof -
  have g: "get_limit 2 (\<lambda>m s. Inl LibraryError) (replicate (length [50::real]) (Num 0)) [0, 1] 0
             ([50] ! 0) = Inl LibraryError"
    by (simp add: get_limit_def)
  show ?thesis
    using failed_task_slot[of "(0, 1)" 2 "[0, 1]" 0 "[50]" 2 "\<lambda>m s. Inl LibraryError" LibraryError 1]
      linspace_0_1_2 g by (simp del: replicate.simps) blast
qed

section \<open>Results are aligned with the masses\<close>

text \<open>
  Claim C7. For every mass grid and every interleaving under which the call returns, the
  vector returned has the length of the mass grid, and its entry \<open>i\<close> is the initial 0 or
  the value the solve task of \<open>mass_range ! i\<close> computes, never a value of another mass;
  with \<open>n_threads\<close> at least 1 the call waits for every thread, and entry \<open>i\<close> is the limit
  computed for \<open>mass_range ! i\<close> whenever that task computes one. The call returns under
  some interleaving.
\<close>

theorem results_aligned:
  assumes "linspace (fst r) (snd r) nb = Inr sigmas"
    and "0 \<le> n_threads"
  shows "(\<exists>evs rs. set_limits minval integ mass_range r nb n_threads evs = Returns rs) \<and>
         (\<forall>evs rs. set_limits minval integ mass_range r nb n_threads evs = Returns rs \<longrightarrow>
            length rs = length mass_range \<and>
            (\<forall>i<length mass_range.
               rs ! i = Num 0 \<or>
               (\<exists>v. get_limit minval integ (replicate (length mass_range) (Num 0)) sigmas i
                       (mass_range ! i) = Inr v \<and> rs ! i = v ! i)) \<and>
            (1 \<le> n_threads \<longrightarrow>
               (\<forall>i v. i < length mass_range \<longrightarrow>
                  get_limit minval integ (replicate (length mass_range) (Num 0)) sigmas i
                    (mass_range ! i) = Inr v \<longrightarrow> rs ! i = v ! i)))"
proof -
  let ?t = "\<lambda>rs i mw. get_limit minval integ rs sigmas i mw"
  let ?n = "length mass_range"
  have loc: "slot_local ?t" by (rule get_limit_slot_local)
  obtain evs where "pc (run ?t mass_range n_threads evs) = Returned"
    using run_returns[OF assms(2)] by blast
  then have 1: "\<exists>evs rs. set_limits minval integ mass_range r nb n_threads evs = Returns rs"
    using set_limits_run[OF assms(1)] by auto
  have 2: "length rs = ?n \<and>
            (\<forall>i<?n. rs ! i = Num 0 \<or>
               (\<exists>v. get_limit minval integ (replicate ?n (Num 0)) sigmas i (mass_range ! i) = Inr v
                  \<and> rs ! i = v ! i)) \<and>
            (1 \<le> n_threads \<longrightarrow>
               (\<forall>i v. i < ?n \<longrightarrow>
                  get_limit minval integ (replicate ?n (Num 0)) sigmas i (mass_range ! i) = Inr v
                  \<longrightarrow> rs ! i = v ! i))"
    if h: "set_limits minval integ mass_range r nb n_threads evs = Returns rs" for evs rs
  proof -
    have pcr: "pc (run ?t mass_range n_threads evs) = Returned"
      and rs: "rs = results (run ?t mass_range n_threads evs)"
      using h set_limits_run[OF assms(1), of minval integ mass_range n_threads evs]
      by (auto split: if_splits)
    have len: "length rs = ?n" using results_length[OF loc] rs by simp
    have either: "rs ! i = Num 0 \<or>
               (\<exists>v. get_limit minval integ (replicate ?n (Num 0)) sigmas i (mass_range ! i) = Inr v
                  \<and> rs ! i = v ! i)" if "i < ?n" for i
      using any_slot[OF loc that, of n_threads evs] rs
      by (auto simp: slot_value_def split: sum.splits)
    have exact: "rs ! i = v ! i" if "1 \<le> n_threads" "i < ?n"
      and "get_limit minval integ (replicate ?n (Num 0)) sigmas i (mass_range ! i) = Inr v"
      for i v
    proof -
      have nz: "n_threads \<noteq> 0" using that(1) by simp
      show ?thesis using returned_slots[OF loc nz pcr that(2)] that(3) rs by (simp add: slot_value_def)
    qed
    show ?thesis using len either exact by blast
  qed
  show ?thesis using 1 2 by blast
qed

theorem results_aligned_witness:
  "set_limits 2 (\<lambda>m s. Inr (m / 50 * (1 + 2 * s))) [50, 100] (0, 1) 2 1
      [Tick, Tick, Finish 1, Finish 0, Tick, Tick, Tick] = Returns [Num (137 / 20), Num (67 / 40)] \<and>
   get_limit 2 (\<lambda>m s. Inr (m / 50 * (1 + 2 * s))) [Num 0, Num 0] [0, 1] 1 100
      = Inr [Num 0, Num (67 / 40)]"
  using results_aligned[of "(0, 1)" 2 "[0, 1]" 1 2 "\<lambda>m s. Inr (m / 50 * (1 + 2 * s))" "[50, 100]"]
  by (simp add: linspace_0_1_2 set_limits_def get_limit_def run_def init_def step_def
      no_background_possion_def interp1d_def itp_call_def)

section \<open>The limit lies in the range of the grid\<close>

lemma segment_bounds:
  fixes x x0 x1 y0 y1 L U :: real
  assumes "x0 \<le> x" "x < x1" "L \<le> y0" "y0 \<le> U" "L \<le> y1" "y1 \<le> U"
  shows "L \<le> (y1 - y0) / (x1 - x0) * (x - x0) + y0 \<and> (y1 - y0) / (x1 - x0) * (x - x0) + y0 \<le> U"
proof -
  define t where "t = (x - x0) / (x1 - x0)"
  have d: "0 < x1 - x0" using assms(1,2) by linarith
  have t0: "0 \<le> t" unfolding t_def using assms(1) d by simp
  have t1: "t \<le> 1" unfolding t_def using assms(2) d by simp
  have "(y1 - y0) / (x1 - x0) * (x - x0) = (y1 - y0) * t"
    unfolding t_def by simp
  then have eq: "(y1 - y0) / (x1 - x0) * (x - x0) + y0 = (1 - t) * y0 + t * y1"
    by (simp add: algebra_simps)
  have lo: "(1 - t) * L + t * L \<le> (1 - t) * y0 + t * y1"
    using t0 t1 assms(3,5) by (intro add_mono mult_left_mono) simp_all
  have hi: "(1 - t) * y0 + t * y1 \<le> (1 - t) * U + t * U"
    using t0 t1 assms(4,6) by (intro add_mono mult_left_mono) simp_all
  have "(1 - t) * L + t * L = L" "(1 - t) * U + t * U = U" by (simp_all add: algebra_simps)
  then show ?thesis using lo hi eq by simp
qed

lemma lin_interp_bounds:
  "ps \<noteq> [] \<Longrightarrow> fst (hd ps) \<le> x \<Longrightarrow> (\<forall>p\<in>set ps. L \<le> snd p \<and> snd p \<le> U) \<Longrightarrow>
   L \<le> lin_interp ps x \<and> lin_interp ps x \<le> U"
proof (induction ps x rule: lin_interp.induct)
  case (1 x)
  then show ?case by simp
next
  case (2 x0 y0 x)
  then show ?case by simp
next
  case (3 x0 y0 x1 y1 ps x)
  show ?case
  proof (cases "x < x1")
    case True
    have "x0 \<le> x" using 3(3) by simp
    then show ?thesis using True 3(4) segment_bounds[of x0 x x1 L y0 U y1] by simp
  next
    case False
    then have "fst (hd ((x1, y1) # ps)) \<le> x" by simp
    then show ?thesis using 3(1)[OF False _ _] 3(4) False by simp
  qed
qed

lemma sorted_hd_le:
  "sorted (map f ps) \<Longrightarrow> p \<in> set ps \<Longrightarrow> (f (hd ps) :: real) \<le> f p"
  by (cases ps) auto

lemma sorted_le_last:
  "sorted (map f ps) \<Longrightarrow> p \<in> set ps \<Longrightarrow> (f p :: real) \<le> f (last ps)"
proof (induction ps)
  case Nil
  then show ?case by simp
next
  case (Cons a ps)
  then show ?case by (cases ps) auto
qed

lemma itp_call_bounds:
  assumes "interp1d minval xs ys fill = Inr itp"
    and "a \<in> set xs" "a \<le> x" "b \<in> set xs" "x \<le> b"
    and "\<forall>y\<in>set ys. L \<le> y \<and> y \<le> U"
  shows "\<exists>v. itp_call itp x = Num v \<and> L \<le> v \<and> v \<le> U"
proof -
  let ?ps = "sort_key fst (zip xs ys)"
  have len: "length xs = length ys" and p: "pts itp = ?ps"
    using assms(1) by (auto simp: interp1d_def split: if_splits)
  have srt: "sorted (map fst ?ps)" by (rule sorted_sort_key)
  have st: "set ?ps = set (zip xs ys)" by simp
  have fsts: "fst ` set ?ps = set xs" using len st by (metis map_fst_zip set_map)
  obtain pa where pa: "pa \<in> set ?ps" "fst pa = a" using assms(2) fsts by force
  obtain pb where pb: "pb \<in> set ?ps" "fst pb = b" using assms(4) fsts by force
  have ne: "?ps \<noteq> []" using pa(1) by (metis empty_iff empty_set)
  have h: "fst (hd ?ps) \<le> x" using sorted_hd_le[OF srt pa(1)] pa(2) assms(3) by simp
  have l: "x \<le> fst (last ?ps)" using sorted_le_last[OF srt pb(1)] pb(2) assms(5) by simp
  have ys: "\<forall>q\<in>set ?ps. L \<le> snd q \<and> snd q \<le> U"
    using assms(6) st by (metis in_set_zipE prod.collapse)
  obtain q qs where c: "?ps = q # qs" using ne by (cases ?ps) auto
  have "itp_call itp x = Num (lin_interp ?ps x)"
    using h l c p by (simp add: itp_call_def not_less[symmetric])
  then show ?thesis using lin_interp_bounds[OF ne h ys] by blast
qed

lemma linspace_range:
  assumes "lo \<le> hi" "linspace lo hi n = Inr sg" "s \<in> set sg"
  shows "lo \<le> s \<and> s \<le> hi"
proof (cases "n = 1")
  case True
  then show ?thesis using assms by (auto simp: linspace_def)
next
  case False
  then obtain i where i: "i < nat n" "s = lo + real i * ((hi - lo) / real_of_int (n - 1))"
    using assms(2,3) by (auto simp: linspace_def split: if_splits)
  have n2: "2 \<le> n" using i(1) False by linarith
  then have pos: "0 < real_of_int (n - 1)" by simp
  have ile: "real i \<le> real_of_int (n - 1)" using i(1) n2 by linarith
  have "0 \<le> real i * ((hi - lo) / real_of_int (n - 1))" using assms(1) pos by simp
  moreover have "real i * ((hi - lo) / real_of_int (n - 1)) \<le> hi - lo"
  proof -
    have "real i * ((hi - lo) / real_of_int (n - 1)) = (real i / real_of_int (n - 1)) * (hi - lo)"
      by simp
    also have "\<dots> \<le> 1 * (hi - lo)"
      using ile pos assms(1) by (intro mult_right_mono) simp_all
    finally show ?thesis by simp
  qed
  ultimately show ?thesis using i(2) by linarith
qed

text \<open>
  Claim C5, as stated, fails when the count exceeds 2.3 at the first grid point: a single
  pair is collected; a library that rejects a single sample makes the task raise and the
  slot stays 0, one that accepts it answers not-a-number below its only sample. Neither
  is a cross-section in the range \<open>[10 powr 0, 10 powr 1]\<close> of the grid.
\<close>

theorem first_point_out_of_range:
  "get_limit 2 (\<lambda>m s. Inr 3) [Num 0] [0, 1] 0 50 = Inl ValueError \<and>
   get_limit 1 (\<lambda>m s. Inr 3) [Num 0] [0, 1] 0 50 = Inr [NaN] \<and>
   set_limits 2 (\<lambda>m s. Inr 3) [50] (0, 1) 2 1 [Tick, Finish 0, Tick, Tick, Tick] = Returns [Num 0] \<and>
   set_limits 1 (\<lambda>m s. Inr 3) [50] (0, 1) 2 1 [Tick, Finish 0, Tick, Tick, Tick] = Returns [NaN] \<and>
   \<not> (10 powr 0 \<le> (0::real))"
  by (simp add: set_limits_def linspace_0_1_2 get_limit_def run_def init_def step_def
      no_background_possion_def interp1d_def itp_call_def)

lemma lin_interp_pos:
  "ps \<noteq> [] \<Longrightarrow> fst (hd ps) \<le> x \<Longrightarrow> (\<forall>p\<in>set ps. 0 < snd p) \<Longrightarrow> 0 < lin_interp ps x"
proof -
  assume ne: "ps \<noteq> []" and h: "fst (hd ps) \<le> x" and pos: "\<forall>p\<in>set ps. 0 < snd p"
  let ?S = "snd ` set ps"
  have fin: "finite ?S" and nem: "?S \<noteq> {}" using ne by simp_all
  have "Min ?S \<in> ?S" using Min_in[OF fin nem] .
  then have mpos: "0 < Min ?S" using pos by auto
  have b: "\<forall>p\<in>set ps. Min ?S \<le> snd p \<and> snd p \<le> Max ?S"
    using fin by (simp add: Min_le Max_ge)
  have "Min ?S \<le> lin_interp ps x" using lin_interp_bounds[OF ne h b] by blast
  then show ?thesis using mpos by linarith
qed

lemma stored_positive:
  assumes "get_limit minval integ rs sigmas result_i mw = Inr rs'"
  shows "rs' ! result_i = NaN \<or> (\<exists>v. rs' ! result_i = Num v \<and> 0 < v)"
proof -
  obtain n_observed where sc: "snd (scan integ mw sigmas [] []) = Inr n_observed"
    using assms by (cases "snd (scan integ mw sigmas [] [])") (auto simp: get_limit_def)
  let ?ys = "map (\<lambda>s. 10 powr s) (take (length n_observed) sigmas)"
  obtain itp where itp: "interp1d minval n_observed ?ys NaN = Inr itp"
    using assms sc by (cases "interp1d minval n_observed ?ys NaN") (auto simp: get_limit_def)
  have lt: "result_i < length rs" and rs': "rs' = rs[result_i := itp_call itp no_background_possion]"
    using assms sc itp by (auto simp: get_limit_def split: if_splits)
  have val: "rs' ! result_i = itp_call itp no_background_possion" using lt rs' by simp
  have p: "pts itp = sort_key fst (zip n_observed ?ys)" and f: "fill_value itp = NaN"
    using itp by (auto simp: interp1d_def split: if_splits)
  have pos: "\<forall>q\<in>set (pts itp). 0 < snd q"
  proof
    fix q assume "q \<in> set (pts itp)"
    then have "q \<in> set (zip n_observed ?ys)" using p by simp
    then have "snd q \<in> set ?ys" by (metis in_set_zipE prod.collapse)
    then show "0 < snd q" by auto
  qed
  show ?thesis
  proof (cases "pts itp")
    case Nil
    then show ?thesis using val f by (simp add: itp_call_def)
  next
    case (Cons q qs)
    show ?thesis
    proof (cases "no_background_possion < fst q \<or> fst (last (q # qs)) < no_background_possion")
      case True
      then show ?thesis using val f Cons by (simp add: itp_call_def)
    next
      case False
      then have h: "fst (hd (pts itp)) \<le> no_background_possion" using Cons by simp
      have ne: "pts itp \<noteq> []" using Cons by simp
      have "0 < lin_interp (pts itp) no_background_possion" using lin_interp_pos[OF ne h pos] .
      moreover have "itp_call itp no_background_possion = Num (lin_interp (pts itp) no_background_possion)"
        using False Cons by (simp add: itp_call_def)
      ultimately show ?thesis using val by simp
    qed
  qed
qed

lemma limit_in_range_cond:
  assumes "lo \<le> hi"
    and "linspace lo hi nb = Inr sigmas"
    and "0 < j" and "j < length sigmas"
    and "\<forall>i\<le>j. integ mw (sigmas ! i) = Inr (cnt (sigmas ! i))"
    and "\<forall>i<j. \<not> cnt (sigmas ! i) > no_background_possion"
    and "cnt (sigmas ! j) > no_background_possion"
    and "minval \<le> 2"
    and "result_i < length rs"
  shows "\<exists>v. get_limit minval integ rs sigmas result_i mw = Inr (rs[result_i := Num v]) \<and>
             10 powr lo \<le> v \<and> v \<le> 10 powr hi \<and> 0 \<le> v"
proof -
  let ?g = "take (Suc j) sigmas"
  let ?ns = "map cnt ?g"
  let ?ys = "map (\<lambda>s. 10 powr s) ?g"
  have sc: "scan integ mw sigmas [] [] = (?g, Inr ?ns)"
    using scan_stop[of j sigmas integ mw cnt "[]" "[]"] assms(4-7) by simp
  have m: "min (length sigmas) (Suc j) = Suc j" using assms(4) by simp
  have lens: "length ?ns = Suc j" "length ?ys = Suc j" using m by simp_all
  obtain itp where itp: "interp1d minval ?ns ?ys NaN = Inr itp"
    using lens assms(3,8) by (simp add: interp1d_def)
  have g0: "sigmas ! 0 \<in> set ?g" and gj: "sigmas ! j \<in> set ?g"
    using assms(3,4) by (auto simp: in_set_conv_nth intro: exI[of _ 0] exI[of _ j])
  have a: "cnt (sigmas ! 0) \<in> set ?ns" and b: "cnt (sigmas ! j) \<in> set ?ns"
    using g0 gj by simp_all
  have a_le: "cnt (sigmas ! 0) \<le> no_background_possion" using assms(3,6) by (simp add: not_less)
  have b_ge: "no_background_possion \<le> cnt (sigmas ! j)" using assms(7) by simp
  have ys: "\<forall>y\<in>set ?ys. 10 powr lo \<le> y \<and> y \<le> 10 powr hi"
  proof
    fix y assume "y \<in> set ?ys"
    then obtain s where s: "s \<in> set ?g" "y = 10 powr s" by auto
    then have "s \<in> set sigmas" by (meson in_set_takeD)
    then have "lo \<le> s \<and> s \<le> hi" using linspace_range[OF assms(1,2)] by blast
    then show "10 powr lo \<le> y \<and> y \<le> 10 powr hi" using s(2) by (simp add: powr_mono)
  qed
  obtain v where v: "itp_call itp no_background_possion = Num v" "10 powr lo \<le> v" "v \<le> 10 powr hi"
    using itp_call_bounds[OF itp a a_le b b_ge ys] by blast
  have "0 \<le> (10::real) powr lo" by simp
  then have nn: "0 \<le> v" using v(2) by linarith
  have "get_limit minval integ rs sigmas result_i mw = Inr (rs[result_i := Num v])"
    using assms(9) v(1) itp by (simp add: get_limit_def sc m)
  then show ?thesis using v nn by blast
qed

text \<open>
  Claim C5, amended. On a grid from \<open>lo\<close> to \<open>hi\<close> with \<open>lo \<le> hi\<close>, if the count at the
  first grid point is at most 2.3 and the count first exceeds 2.3 at a later grid point
  \<open>j\<close>, the solver stores a cross-section between \<open>10 powr lo\<close> and \<open>10 powr hi\<close>. And
  with no condition at all, on any grid and with any integrator: whenever the solver
  stores a value, it is not-a-number or a positive cross-section, never a negative one.
\<close>

theorem limit_in_range:
  "(lo \<le> hi \<and> linspace lo hi nb = Inr sigmas \<and> 0 < j \<and> j < length sigmas \<and>
    (\<forall>i\<le>j. integ mw (sigmas ! i) = Inr (cnt (sigmas ! i))) \<and>
    (\<forall>i<j. \<not> cnt (sigmas ! i) > no_background_possion) \<and>
    cnt (sigmas ! j) > no_background_possion \<and> minval \<le> 2 \<and> result_i < length rs
    \<longrightarrow> (\<exists>v. get_limit minval integ rs sigmas result_i mw = Inr (rs[result_i := Num v]) \<and>
             10 powr lo \<le> v \<and> v \<le> 10 powr hi \<and> 0 \<le> v)) \<and>
   (\<forall>minval' integ' rs0 grid k m rs'.
      get_limit minval' integ' rs0 grid k m = Inr rs'
      \<longrightarrow> rs' ! k = NaN \<or> (\<exists>v. rs' ! k = Num v \<and> 0 < v))"
  using limit_in_range_cond[of lo hi nb sigmas j integ mw cnt minval result_i rs] stored_positive
  by blast

theorem limit_in_range_witness:
  "(\<exists>v. get_limit 2 (\<lambda>m s. Inr (1 + 2 * s)) [Num 0] [0, 1] 0 50 = Inr ([Num 0][0 := Num v]) \<and>
       10 powr 0 \<le> v \<and> v \<le> 10 powr 1 \<and> 0 \<le> v)"
proof -
  note t = limit_in_range[of 0 1 2 "[0, 1]" 1 "\<lambda>m s. Inr (1 + 2 * s)" 50 "\<lambda>s. 1 + 2 * s" 2 0 "[Num 0]"]
  have a: "\<exists>v. get_limit 2 (\<lambda>m s. Inr (1 + 2 * s)) [Num 0] [0, 1] 0 50 = Inr ([Num 0][0 := Num v]) \<and>
       10 powr 0 \<le> v \<and> v \<le> 10 powr 1 \<and> 0 \<le> v"
    using t[THEN conjunct1]
    by (simp add: linspace_0_1_2 no_background_possion_def less_Suc_eq_le le_Suc_eq)
  show ?thesis using a .
qed

section \<open>The threshold exceeded at the first grid point\<close>

text \<open>
  Claim C10, as stated, fails with an interpolation library that accepts a single sample:
  the construction over the one pair does not raise, the threshold lies below the only
  sample, the interpolator answers not-a-number, and the slot holds not-a-number, not
  its initial 0.
\<close>

theorem single_sample_accepted:
  "interp1d 1 [3] [10 powr 0] NaN = Inr \<lparr>pts = [(3, 1)], fill_value = NaN\<rparr> \<and>
   get_limit 1 (\<lambda>m s. Inr 3) [Num 0] [0, 1] 0 50 = Inr [NaN] \<and>
   set_limits 1 (\<lambda>m s. Inr 3) [50] (0, 1) 2 1 [Tick, Finish 0, Tick, Tick, Tick] = Returns [NaN]"
  by (simp add: set_limits_def linspace_0_1_2 get_limit_def run_def init_def step_def
      no_background_possion_def interp1d_def itp_call_def)

text \<open>
  Claim C10, amended. When the count at the first grid point exceeds 2.3, the loop stops
  with a single count, and slot \<open>i\<close> of every vector the call returns is the initial 0 or
  not-a-number, never a cross-section. With a library that accepts a single sample the
  construction succeeds, the solver stores not-a-number, and with \<open>n_threads\<close> at least 1
  slot \<open>i\<close> of every vector returned is not-a-number. With a library that rejects a single
  sample the construction raises \<^verbatim>\<open>ValueError\<close>, the solve task raises, and slot \<open>i\<close>
  keeps the initial 0. The call returns under some interleaving.
\<close>

theorem first_point_exceeds:
  assumes "linspace (fst r) (snd r) nb = Inr (s0 # rest)"
    and "i < length mass_range"
    and "integ (mass_range ! i) s0 = Inr n0"
    and "n0 > no_background_possion"
    and "0 \<le> n_threads"
  shows "scan integ (mass_range ! i) (s0 # rest) [] [] = ([s0], Inr [n0]) \<and>
         (\<exists>evs rs. set_limits minval integ mass_range r nb n_threads evs = Returns rs) \<and>
         (\<forall>evs rs. set_limits minval integ mass_range r nb n_threads evs = Returns rs
            \<longrightarrow> rs ! i = Num 0 \<or> rs ! i = NaN) \<and>
         (minval \<le> 1 \<longrightarrow>
            (\<exists>itp. interp1d minval [n0] [10 powr s0] NaN = Inr itp) \<and>
            get_limit minval integ (replicate (length mass_range) (Num 0)) (s0 # rest) i
              (mass_range ! i) = Inr ((replicate (length mass_range) (Num 0))[i := NaN]) \<and>
            (\<forall>evs rs. 1 \<le> n_threads \<and>
               set_limits minval integ mass_range r nb n_threads evs = Returns rs
               \<longrightarrow> rs ! i = NaN)) \<and>
         (2 \<le> minval \<longrightarrow>
            interp1d minval [n0] [10 powr s0] NaN = Inl ValueError \<and>
            get_limit minval integ (replicate (length mass_range) (Num 0)) (s0 # rest) i
              (mass_range ! i) = Inl ValueError \<and>
            (\<forall>evs rs. set_limits minval integ mass_range r nb n_threads evs = Returns rs
               \<longrightarrow> rs ! i = Num 0))"
proof -
  let ?t = "\<lambda>rs i mw. get_limit minval integ rs (s0 # rest) i mw"
  let ?n = "length mass_range"
  let ?r0 = "replicate ?n (Num 0)"
  have sc: "scan integ (mass_range ! i) (s0 # rest) [] [] = ([s0], Inr [n0])"
    using assms(3,4) by simp
  have loc: "slot_local ?t" by (rule get_limit_slot_local)
  have run_eq: "set_limits minval integ mass_range r nb n_threads evs = Returns rs \<Longrightarrow>
      pc (run ?t mass_range n_threads evs) = Returned \<and> rs = results (run ?t mass_range n_threads evs)"
    for evs rs
    using set_limits_run[OF assms(1), of minval integ mass_range n_threads evs]
    by (auto split: if_splits)
  obtain evs where "pc (run ?t mass_range n_threads evs) = Returned"
    using run_returns[OF assms(5)] by blast
  then have ex: "\<exists>evs rs. set_limits minval integ mass_range r nb n_threads evs = Returns rs"
    using set_limits_run[OF assms(1)] by auto
  have small: "(\<exists>itp. interp1d minval [n0] [10 powr s0] NaN = Inr itp) \<and>
      get_limit minval integ ?r0 (s0 # rest) i (mass_range ! i) = Inr (?r0[i := NaN]) \<and>
      (\<forall>evs rs. 1 \<le> n_threads \<and>
               set_limits minval integ mass_range r nb n_threads evs = Returns rs
               \<longrightarrow> rs ! i = NaN)" if mv: "minval \<le> 1"
  proof -
    have ip: "interp1d minval [n0] [10 powr s0] NaN = Inr \<lparr>pts = [(n0, 10 powr s0)], fill_value = NaN\<rparr>"
      using mv by (simp add: interp1d_def)
    have ic: "itp_call \<lparr>pts = [(n0, 10 powr s0)], fill_value = NaN\<rparr> no_background_possion = NaN"
      using assms(4) by (simp add: itp_call_def)
    have gl: "get_limit minval integ ?r0 (s0 # rest) i (mass_range ! i) = Inr (?r0[i := NaN])"
      unfolding get_limit_def sc using assms(2) ip ic by simp
    have sv: "slot_value ?t mass_range i = NaN"
      using gl assms(2) by (simp add: slot_value_def)
    have "rs ! i = NaN" if "1 \<le> n_threads"
      and "set_limits minval integ mass_range r nb n_threads evs = Returns rs" for evs rs
    proof -
      have nz: "n_threads \<noteq> 0" using that(1) by simp
      show ?thesis using returned_slots[OF loc nz _ assms(2)] run_eq[OF that(2)] sv by simp
    qed
    then show ?thesis using ip gl by blast
  qed
  have big: "interp1d minval [n0] [10 powr s0] NaN = Inl ValueError \<and>
      get_limit minval integ ?r0 (s0 # rest) i (mass_range ! i) = Inl ValueError \<and>
      (\<forall>evs rs. set_limits minval integ mass_range r nb n_threads evs = Returns rs
               \<longrightarrow> rs ! i = Num 0)" if mv: "2 \<le> minval"
  proof -
    have ip: "interp1d minval [n0] [10 powr s0] NaN = Inl ValueError"
      using mv by (simp add: interp1d_def)
    have gl: "get_limit minval integ ?r0 (s0 # rest) i (mass_range ! i) = Inl ValueError"
      unfolding get_limit_def sc by (simp add: ip)
    have "results (run ?t mass_range n_threads evs) ! i = Num 0" for evs
      using failed_slot[of ?t i mass_range ValueError n_threads evs] loc assms(2) gl by simp
    then show ?thesis using ip gl run_eq by metis
  qed
  have either: "rs ! i = Num 0 \<or> rs ! i = NaN"
    if h: "set_limits minval integ mass_range r nb n_threads evs = Returns rs" for evs rs
  proof -
    have rs: "rs = results (run ?t mass_range n_threads evs)" using run_eq[OF h] by simp
    have sv: "slot_value ?t mass_range i = Num 0 \<or> slot_value ?t mass_range i = NaN"
    proof (cases "minval \<le> 1")
      case True
      then show ?thesis using small assms(2) by (simp add: slot_value_def)
    next
      case False
      then have "2 \<le> minval" by simp
      then show ?thesis using big by (simp add: slot_value_def)
    qed
    show ?thesis using any_slot[OF loc assms(2), of n_threads evs] rs sv by auto
  qed
  show ?thesis using sc ex either small big by blast
qed

theorem first_point_exceeds_witness:
  "scan (\<lambda>m s. Inr 3) 50 [0, 1] [] [] = ([0], Inr [3]) \<and>
   get_limit 1 (\<lambda>m s. Inr 3) [Num 0] [0, 1] 0 50 = Inr [NaN] \<and>
   (\<exists>evs rs. set_limits 1 (\<lambda>m s. Inr 3) [50] (0, 1) 2 1 evs = Returns rs \<and> rs ! 0 = NaN)"
proof -
  have h: "(3::real) > no_background_possion" by (simp add: no_background_possion_def)
  note t = first_point_exceeds[of "(0, 1)" 2 0 "[1]" 0 "[50]" "\<lambda>m s. Inr 3" 3 1 1]
  show ?thesis using t linspace_0_1_2 h by simp blast
qed

section \<open>The end-to-end scenario\<close>

lemma sqrt10_gt: "no_background_possion < 10 powr (1 / 2)"
proof -
  have "(23 / 10 :: real) < sqrt 10" by (rule real_less_rsqrt) (simp add: power2_eq_square)
  then show ?thesis by (simp add: powr_half_sqrt no_background_possion_def)
qed

lemma linspace_scenario: "linspace (- 46) (- 44) 5 = Inr [- 46, - 91 / 2, - 45, - 89 / 2, - 44]"
  by (simp add: linspace_def eval_nat_numeral upt_rec)

lemma scenario_get_limit:
  assumes "minval \<le> 2" and "result_i < length rs"
  shows "get_limit minval (\<lambda>m s. Inr (10 powr (s + 46))) rs [- 46, - 91 / 2, - 45, - 89 / 2, - 44]
           result_i mw = Inr (rs[result_i := Num (23 / 10 * 10 powr (- 46))])"
proof -
  let ?sg = "[- 46, - 91 / 2, - 45, - 89 / 2, - 44] :: real list"
  let ?integ = "\<lambda>(m::real) s. (Inr (10 powr (s + 46)) :: error + real)"
  define q :: real where "q = 10 powr (1 / 2)"
  define a :: real where "a = 10 powr (- 46)"
  have q23: "no_background_possion < q" unfolding q_def by (rule sqrt10_gt)
  have q1: "1 < q" using q23 by (simp add: no_background_possion_def)
  have c0: "(10::real) powr (- 46 + 46) = 1" by simp
  have c1: "(10::real) powr (1 / 2) = q" unfolding q_def by simp
  have b: "(10::real) powr (- 91 / 2) = q * a"
    unfolding q_def a_def by (simp add: powr_add[symmetric])
  have sc: "scan ?integ mw ?sg [] [] = ([- 46, - 91 / 2], Inr [1, q])"
    using q23 by (simp add: c0 c1 no_background_possion_def)
  have ip: "interp1d minval [1, q] [a, q * a] NaN = Inr \<lparr>pts = [(1, a), (q, q * a)], fill_value = NaN\<rparr>"
    using assms(1) q1 by (simp add: interp1d_def)
  have "(q * a - a) / (q - 1) = a"
  proof -
    have "q * a - a = a * (q - 1)" by (simp add: algebra_simps)
    then show ?thesis using q1 by simp
  qed
  then have li: "lin_interp [(1, a), (q, q * a)] no_background_possion = 23 / 10 * a"
    using q23 by (simp add: no_background_possion_def)
  have ic: "itp_call \<lparr>pts = [(1, a), (q, q * a)], fill_value = NaN\<rparr> no_background_possion
        = Num (23 / 10 * a)"
    using q23 li by (simp add: itp_call_def no_background_possion_def)
  have "get_limit minval ?integ rs ?sg result_i mw = Inr (rs[result_i := Num (23 / 10 * a)])"
    unfolding get_limit_def sc using assms(2) ip ic b a_def by simp
  then show ?thesis unfolding a_def .
qed

text \<open>
  Claim C3. With the mass grid \<open>[50]\<close>, the range \<open>(-46, -44)\<close>, five grid points and the
  integrator replaced by the mock \<open>10 powr (log_sigma + 46)\<close>, the solver stores
  \<open>2.3 * 10 powr (-46)\<close>, every vector the call returns is that single value, the call
  returns under some interleaving, and the decimal logarithm of the value is
  \<open>log 10 2.3 - 46\<close>. (The interpolation library accepts two samples.)
\<close>

theorem end_to_end_scenario:
  assumes "minval \<le> 2" and "1 \<le> n_threads"
  shows "get_limit minval (\<lambda>m s. Inr (10 powr (s + 46))) [Num 0] [- 46, - 91 / 2, - 45, - 89 / 2, - 44]
           0 50 = Inr [Num (23 / 10 * 10 powr (- 46))] \<and>
         (\<exists>evs. set_limits minval (\<lambda>m s. Inr (10 powr (s + 46))) [50] (- 46, - 44) 5 n_threads evs
            = Returns [Num (23 / 10 * 10 powr (- 46))]) \<and>
         (\<forall>evs rs. set_limits minval (\<lambda>m s. Inr (10 powr (s + 46))) [50] (- 46, - 44) 5 n_threads evs
            = Returns rs \<longrightarrow> rs = [Num (23 / 10 * 10 powr (- 46))]) \<and>
         log 10 (23 / 10 * 10 powr (- 46)) = log 10 (23 / 10) - 46"
proof -
  let ?sg = "[- 46, - 91 / 2, - 45, - 89 / 2, - 44] :: real list"
  let ?integ = "\<lambda>(m::real) s. (Inr (10 powr (s + 46)) :: error + real)"
  let ?t = "\<lambda>rs i mw. get_limit minval ?integ rs ?sg i mw"
  let ?v = "Num (23 / 10 * 10 powr (- 46))"
  have ls: "linspace (fst (- 46, - 44)) (snd (- 46, - 44)) 5 = Inr ?sg"
    using linspace_scenario by simp
  have g: "get_limit minval ?integ [Num 0] ?sg 0 50 = Inr [?v]"
    using scenario_get_limit[OF assms(1), of 0 "[Num 0]" 50] by simp
  have loc: "slot_local ?t" by (rule get_limit_slot_local)
  have nz: "n_threads \<noteq> 0" and nn: "0 \<le> n_threads" using assms(2) by simp_all
  have all: "rs = [?v]"
    if h: "set_limits minval ?integ [50] (- 46, - 44) 5 n_threads evs = Returns rs" for evs rs
  proof -
    have pcr: "pc (run ?t [50] n_threads evs) = Returned"
      and rs: "rs = results (run ?t [50] n_threads evs)"
      using h set_limits_run[OF ls, of minval ?integ "[50]" n_threads evs]
      by (auto split: if_splits)
    have len: "length rs = 1" using results_length[OF loc, of "[50]" n_threads evs] rs by simp
    have "rs ! 0 = slot_value ?t [50] 0"
      using returned_slots[OF loc nz pcr, of 0] rs by simp
    also have "\<dots> = ?v" using g by (simp add: slot_value_def)
    finally have "rs ! 0 = ?v" .
    then show ?thesis using len by (cases rs) auto
  qed
  obtain evs where "pc (run ?t [50] n_threads evs) = Returned"
    using run_returns[OF nn] by blast
  then obtain rs where "set_limits minval ?integ [50] (- 46, - 44) 5 n_threads evs = Returns rs"
    using set_limits_run[OF ls, of minval ?integ "[50]" n_threads evs] by auto
  then have ex: "\<exists>evs. set_limits minval ?integ [50] (- 46, - 44) 5 n_threads evs = Returns [?v]"
    using all by blast
  have "log 10 (23 / 10 * 10 powr (- 46)) = log 10 (23 / 10) + log 10 (10 powr (- 46))"
    by (rule log_mult_pos) simp_all
  moreover have "log 10 (10 powr (- 46)) = (- 46 :: real)" by simp
  ultimately have lg: "log 10 (23 / 10 * 10 powr (- 46)) = log 10 (23 / 10) - 46" by linarith
  show ?thesis using g ex all lg by blast
qed

theorem end_to_end_scenario_witness:
  "get_limit 2 (\<lambda>m s. Inr (10 powr (s + 46))) [Num 0] [- 46, - 91 / 2, - 45, - 89 / 2, - 44]
           0 50 = Inr [Num (23 / 10 * 10 powr (- 46))] \<and>
   (\<exists>evs. set_limits 2 (\<lambda>m s. Inr (10 powr (s + 46))) [50] (- 46, - 44) 5 1 evs
            = Returns [Num (23 / 10 * 10 powr (- 46))]) \<and>
   log 10 (23 / 10 * 10 powr (- 46)) = log 10 (23 / 10) - 46"
  using end_to_end_scenario[of 2 1] by simp

section \<open>The detector's efficiency\<close>

lemma ce_cached:
  "LZ_itp st = Some f \<Longrightarrow> combined_efficiency minval read_table st e = (Inr (itp_call f e), st)"
  by (simp add: combined_efficiency_def itp_eff_def)

lemma ce_success:
  assumes "combined_efficiency minval read_table st e = (Inr v, st')"
  shows "\<exists>f. LZ_itp st' = Some f \<and> v = itp_call f e \<and>
             (\<forall>e'. fst (combined_efficiency minval read_table st e') = Inr (itp_call f e'))"
proof (cases "LZ_itp st")
  case (Some f)
  then show ?thesis using assms ce_cached[OF Some] by auto
next
  case None
  then show ?thesis using assms
    by (auto simp: combined_efficiency_def itp_eff_def get_eff_def
        split: option.splits sum.splits list.splits prod.splits if_splits)
qed

lemma ce_first:
  assumes "read_table = Inr (x # y # cols)" and "length x = length y" and "minval \<le> length x"
  shows "combined_efficiency minval read_table \<lparr>eff_cache = None, LZ_itp = None\<rparr> e =
           (Inr (itp_call \<lparr>pts = sort_key fst (zip x y), fill_value = Num 0\<rparr> e),
            \<lparr>eff_cache = Some (x # y # cols),
             LZ_itp = Some \<lparr>pts = sort_key fst (zip x y), fill_value = Num 0\<rparr>\<rparr>)"
  using assms by (simp add: combined_efficiency_def itp_eff_def get_eff_def interp1d_def)

lemma lin_interp_segment:
  "sorted (map fst ps) \<Longrightarrow> Suc k < length ps \<Longrightarrow> fst (ps ! k) \<le> e \<Longrightarrow> e < fst (ps ! Suc k) \<Longrightarrow>
   lin_interp ps e =
     (snd (ps ! Suc k) - snd (ps ! k)) / (fst (ps ! Suc k) - fst (ps ! k)) * (e - fst (ps ! k))
       + snd (ps ! k)"
proof (induction ps e arbitrary: k rule: lin_interp.induct)
  case (1 x)
  then show ?case by simp
next
  case (2 x0 y0 x)
  then show ?case by simp
next
  case (3 x0 y0 x1 y1 ps x)
  show ?case
  proof (cases "x < x1")
    case True
    have "k = 0"
    proof (rule ccontr)
      assume "k \<noteq> 0"
      then obtain k' where k': "k = Suc k'" by (cases k) auto
      have "((x1, y1) # ps) ! k' \<in> set ((x1, y1) # ps)" using 3(3) k' by (intro nth_mem) simp
      then have "x1 \<le> fst (((x1, y1) # ps) ! k')" using 3(2) by auto
      then show False using 3(4) k' True by simp
    qed
    then show ?thesis using True by simp
  next
    case False
    then obtain k' where k': "k = Suc k'" using 3(5) by (cases k) auto
    have s: "sorted (map fst ((x1, y1) # ps))" using 3(2) by simp
    show ?thesis using 3(1)[OF False s, of k'] 3(3,4,5) k' False by simp
  qed
qed

lemma lin_interp_last:
  "ps \<noteq> [] \<Longrightarrow> (\<forall>p\<in>set ps. fst p \<le> e) \<Longrightarrow> lin_interp ps e = snd (last ps)"
  by (induction ps e rule: lin_interp.induct) (auto simp: not_less[symmetric])

lemma itp_call_outside:
  assumes "length x = length y"
    and "(\<forall>xi\<in>set x. e < xi) \<or> (\<forall>xi\<in>set x. xi < e)"
  shows "itp_call \<lparr>pts = sort_key fst (zip x y), fill_value = Num 0\<rparr> e = Num 0"
proof (cases "sort_key fst (zip x y)")
  case Nil
  then show ?thesis by (simp add: itp_call_def)
next
  case (Cons p ps)
  let ?ps = "sort_key fst (zip x y)"
  have mem: "\<And>q. q \<in> set ?ps \<Longrightarrow> fst q \<in> set x" by (auto dest: set_zip_leftD)
  have "p \<in> set ?ps" "last (p # ps) \<in> set ?ps" unfolding Cons by simp_all
  then have "fst p \<in> set x" "fst (last (p # ps)) \<in> set x" using mem by blast+
  then have "e < fst p \<or> fst (last (p # ps)) < e" using assms(2) by blast
  then show ?thesis by (simp add: itp_call_def Cons)
qed

lemma itp_call_inside:
  assumes "ps = sort_key fst (zip x y)" and "Suc k < length ps"
    and "fst (ps ! k) \<le> e" and "e < fst (ps ! Suc k)"
  shows "itp_call \<lparr>pts = ps, fill_value = fill\<rparr> e =
           Num ((snd (ps ! Suc k) - snd (ps ! k)) / (fst (ps ! Suc k) - fst (ps ! k))
                  * (e - fst (ps ! k)) + snd (ps ! k))"
proof -
  have srt: "sorted (map fst ps)" unfolding assms(1) by (rule sorted_sort_key)
  obtain p qs where c: "ps = p # qs" using assms(2) by (cases ps) auto
  have k: "ps ! k \<in> set ps" and sk: "ps ! Suc k \<in> set ps" using assms(2) by simp_all
  have "fst (hd ps) \<le> fst (ps ! k)" using sorted_hd_le[OF srt k] .
  then have lo: "\<not> e < fst p" using assms(3) c by simp
  have "fst (ps ! Suc k) \<le> fst (last ps)" using sorted_le_last[OF srt sk] .
  then have hi: "\<not> fst (last (p # qs)) < e" using assms(4) c by simp
  show ?thesis
    using lo hi lin_interp_segment[OF srt assms(2,3,4)] c by (simp add: itp_call_def)
qed

lemma itp_call_last:
  assumes "ps = sort_key fst (zip x y)" and "ps \<noteq> []"
  shows "itp_call \<lparr>pts = ps, fill_value = fill\<rparr> (fst (last ps)) = Num (snd (last ps))"
proof -
  have srt: "sorted (map fst ps)" unfolding assms(1) by (rule sorted_sort_key)
  obtain p qs where c: "ps = p # qs" using assms(2) by (cases ps) auto
  have le: "\<forall>q\<in>set ps. fst q \<le> fst (last ps)" using sorted_le_last[OF srt] by blast
  then have lo: "\<not> fst (last ps) < fst p" using c by (simp add: not_less)
  show ?thesis
    using lo lin_interp_last[OF assms(2) le] c by (simp add: itp_call_def)
qed

text \<open>
  Claim C9. With a table of at least two columns (energies \<open>x\<close>, efficiencies \<open>y\<close>) that
  the interpolation library accepts, and \<open>ps\<close> the tabulated pairs in the order of their
  energies: an energy below every tabulated energy or above every one gives 0; an energy
  on the segment between two neighbouring pairs gives the value of the straight line
  through them, the last tabulated energy gives its efficiency; the detector has no
  interpolator before the first query, holds the one over \<open>ps\<close> after it, and every later
  query, whatever the file then holds, answers from that interpolator and leaves the
  state as it is.
\<close>

theorem efficiency_lookup:
  assumes "read_table = Inr (x # y # cols)" and "length x = length y" and "minval \<le> length x"
    and "LZ_new read_table None = Inr st0"
    and "ps = sort_key fst (zip x y)"
    and "st1 = snd (combined_efficiency minval read_table st0 e0)"
  shows "((\<forall>xi\<in>set x. e < xi) \<or> (\<forall>xi\<in>set x. xi < e) \<longrightarrow>
            fst (combined_efficiency minval read_table st0 e) = Inr (Num 0)) \<and>
         (\<forall>k. Suc k < length ps \<and> fst (ps ! k) \<le> e \<and> e < fst (ps ! Suc k) \<longrightarrow>
            fst (combined_efficiency minval read_table st0 e) =
              Inr (Num ((snd (ps ! Suc k) - snd (ps ! k)) / (fst (ps ! Suc k) - fst (ps ! k))
                          * (e - fst (ps ! k)) + snd (ps ! k)))) \<and>
         (ps \<noteq> [] \<and> e = fst (last ps) \<longrightarrow>
            fst (combined_efficiency minval read_table st0 e) = Inr (Num (snd (last ps)))) \<and>
         LZ_itp st0 = None \<and>
         LZ_itp st1 = Some \<lparr>pts = ps, fill_value = Num 0\<rparr> \<and>
         (\<forall>minval' read_table' e'.
            combined_efficiency minval' read_table' st1 e' =
              (Inr (itp_call \<lparr>pts = ps, fill_value = Num 0\<rparr> e'), st1)) \<and>
         (\<forall>e'. fst (combined_efficiency minval read_table st1 e') =
                fst (combined_efficiency minval read_table st0 e'))"
proof -
  let ?f = "\<lparr>pts = ps, fill_value = Num 0\<rparr>"
  have st0: "st0 = \<lparr>eff_cache = None, LZ_itp = None\<rparr>" using assms(4) by (auto simp: LZ_new_def)
  have first: "combined_efficiency minval read_table st0 e' =
      (Inr (itp_call ?f e'), \<lparr>eff_cache = Some (x # y # cols), LZ_itp = Some ?f\<rparr>)" for e'
    unfolding st0 assms(5) by (rule ce_first[OF assms(1-3)])
  have st1: "st1 = \<lparr>eff_cache = Some (x # y # cols), LZ_itp = Some ?f\<rparr>"
    using assms(6) first by simp
  have a: "(\<forall>xi\<in>set x. e < xi) \<or> (\<forall>xi\<in>set x. xi < e) \<longrightarrow>
            fst (combined_efficiency minval read_table st0 e) = Inr (Num 0)"
    using itp_call_outside[OF assms(2), of e] first assms(5) by simp
  have b: "\<forall>k. Suc k < length ps \<and> fst (ps ! k) \<le> e \<and> e < fst (ps ! Suc k) \<longrightarrow>
            fst (combined_efficiency minval read_table st0 e) =
              Inr (Num ((snd (ps ! Suc k) - snd (ps ! k)) / (fst (ps ! Suc k) - fst (ps ! k))
                          * (e - fst (ps ! k)) + snd (ps ! k)))"
    using itp_call_inside[OF assms(5), of _ e "Num 0"] first by simp
  have l: "ps \<noteq> [] \<and> e = fst (last ps) \<longrightarrow>
            fst (combined_efficiency minval read_table st0 e) = Inr (Num (snd (last ps)))"
    using itp_call_last[OF assms(5), of "Num 0"] first by simp
  have c: "\<forall>minval' read_table' e'.
            combined_efficiency minval' read_table' st1 e' = (Inr (itp_call ?f e'), st1)"
    using ce_cached[of st1 ?f] st1 by simp
  have d: "\<forall>e'. fst (combined_efficiency minval read_table st1 e') =
                fst (combined_efficiency minval read_table st0 e')"
    using c first by simp
  show ?thesis using a b l c d st0 st1 by simp
qed

theorem efficiency_lookup_witness:
  "fst (combined_efficiency 1 (Inr [[0, 10, 20], [0, 1, 1]]) \<lparr>eff_cache = None, LZ_itp = None\<rparr> 25)
     = Inr (Num 0) \<and>
   fst (combined_efficiency 1 (Inr [[0, 10, 20], [0, 1, 1]]) \<lparr>eff_cache = None, LZ_itp = None\<rparr> 5)
     = Inr (Num (1 / 2)) \<and>
   LZ_itp (snd (combined_efficiency 1 (Inr [[0, 10, 20], [0, 1, 1]])
                  \<lparr>eff_cache = None, LZ_itp = None\<rparr> 5))
     = Some \<lparr>pts = [(0, 0), (10, 1), (20, 1)], fill_value = Num 0\<rparr>"
proof -
  have ps: "[(0, 0), (10, 1), (20, 1)] = sort_key fst (zip [0, 10, 20 :: real] [0, 1, 1 :: real])"
    by simp
  have n: "LZ_new (Inr [[0, 10, 20], [0, 1, 1]]) None = Inr \<lparr>eff_cache = None, LZ_itp = None\<rparr>"
    by (simp add: LZ_new_def)
  note t = efficiency_lookup[of "Inr [[0, 10, 20], [0, 1, 1]]" "[0, 10, 20]" "[0, 1, 1]" "[]" 1
      "\<lparr>eff_cache = None, LZ_itp = None\<rparr>" "[(0, 0), (10, 1), (20, 1)]" _ 5, OF refl _ _ n ps refl]
  have t25: "fst (combined_efficiency 1 (Inr [[0, 10, 20], [0, 1, 1]])
      \<lparr>eff_cache = None, LZ_itp = None\<rparr> 25) = Inr (Num 0)"
    using t[of 25] by simp
  have t5: "fst (combined_efficiency 1 (Inr [[0, 10, 20], [0, 1, 1]])
      \<lparr>eff_cache = None, LZ_itp = None\<rparr> 5) = Inr (Num (1 / 2))"
    using t[of 5, THEN conjunct2, THEN conjunct1, THEN spec, of 0] by simp
  show ?thesis using t25 t5 t[of 5] by simp
qed

text \<open>
  Claim C8, as stated, fails: with the file missing, or with a table of a single column,
  the construction of the detector succeeds, and the failure is raised by the first
  efficiency query.
\<close>

theorem construction_defers_load:
  "LZ_new (Inl OSError) None = Inr \<lparr>eff_cache = None, LZ_itp = None\<rparr> \<and>
   combined_efficiency 1 (Inl OSError) \<lparr>eff_cache = None, LZ_itp = None\<rparr> 5
     = (Inl OSError, \<lparr>eff_cache = None, LZ_itp = None\<rparr>) \<and>
   LZ_new (Inr [[1, 2, 3]]) None = Inr \<lparr>eff_cache = None, LZ_itp = None\<rparr> \<and>
   fst (combined_efficiency 1 (Inr [[1, 2, 3]]) \<lparr>eff_cache = None, LZ_itp = None\<rparr> 5)
     = Inl TypeError"
  by (simp add: LZ_new_def combined_efficiency_def itp_eff_def get_eff_def)

text \<open>
  Claim C8, amended. The construction of the detector reads nothing and always succeeds,
  whatever the file and the memo of earlier loads. The table in effect at the first
  efficiency query is the memoised one, or with nothing memoised the one read then. With
  nothing memoised, a load that fails makes the query raise the load error and leaves the
  state as it was. A table in effect of fewer than two columns makes the query raise
  \<^verbatim>\<open>TypeError\<close> and leaves the detector without interpolator. A table in effect of two
  or more columns gives what the interpolator over its first two columns gives: further
  columns are ignored.
\<close>

theorem load_fails_at_first_query:
  "LZ_new read_table memo = Inr \<lparr>eff_cache = memo, LZ_itp = None\<rparr> \<and>
   (\<forall>e. memo = None \<and> read_table = Inl e \<longrightarrow>
      combined_efficiency minval read_table \<lparr>eff_cache = memo, LZ_itp = None\<rparr> e_nr
        = (Inl e, \<lparr>eff_cache = memo, LZ_itp = None\<rparr>)) \<and>
   (\<forall>t. (memo = Some t \<or> memo = None \<and> read_table = Inr t) \<and> length t < 2 \<longrightarrow>
      fst (combined_efficiency minval read_table \<lparr>eff_cache = memo, LZ_itp = None\<rparr> e_nr)
        = Inl TypeError \<and>
      LZ_itp (snd (combined_efficiency minval read_table \<lparr>eff_cache = memo, LZ_itp = None\<rparr> e_nr))
        = None) \<and>
   (\<forall>x y cols. memo = Some (x # y # cols) \<or> memo = None \<and> read_table = Inr (x # y # cols) \<longrightarrow>
      fst (combined_efficiency minval read_table \<lparr>eff_cache = memo, LZ_itp = None\<rparr> e_nr)
        = (case interp1d minval x y (Num 0) of
             Inl e \<Rightarrow> Inl e
           | Inr f \<Rightarrow> Inr (itp_call f e_nr)))"
proof -
  have short: "t = [] \<or> (\<exists>a. t = [a])" if "length t < 2" for t :: table
    using that by (cases t; cases "tl t") auto
  have 1: "LZ_new read_table memo = Inr \<lparr>eff_cache = memo, LZ_itp = None\<rparr>"
    by (simp add: LZ_new_def)
  have 2: "\<forall>e. memo = None \<and> read_table = Inl e \<longrightarrow>
      combined_efficiency minval read_table \<lparr>eff_cache = memo, LZ_itp = None\<rparr> e_nr
        = (Inl e, \<lparr>eff_cache = memo, LZ_itp = None\<rparr>)"
    by (simp add: combined_efficiency_def itp_eff_def get_eff_def)
  have 3: "\<forall>t. (memo = Some t \<or> memo = None \<and> read_table = Inr t) \<and> length t < 2 \<longrightarrow>
      fst (combined_efficiency minval read_table \<lparr>eff_cache = memo, LZ_itp = None\<rparr> e_nr)
        = Inl TypeError \<and>
      LZ_itp (snd (combined_efficiency minval read_table \<lparr>eff_cache = memo, LZ_itp = None\<rparr> e_nr))
        = None"
    using short by (fastforce simp: combined_efficiency_def itp_eff_def get_eff_def)
  have 4: "\<forall>x y cols. memo = Some (x # y # cols) \<or> memo = None \<and> read_table = Inr (x # y # cols) \<longrightarrow>
      fst (combined_efficiency minval read_table \<lparr>eff_cache = memo, LZ_itp = None\<rparr> e_nr)
        = (case interp1d minval x y (Num 0) of
             Inl e \<Rightarrow> Inl e
           | Inr f \<Rightarrow> Inr (itp_call f e_nr))"
    by (auto simp: combined_efficiency_def itp_eff_def get_eff_def split: sum.splits)
  show ?thesis using 1 2 3 4 by blast
qed

theorem load_fails_at_first_query_witness:
  "LZ_new (Inl OSError) None = Inr \<lparr>eff_cache = None, LZ_itp = None\<rparr> \<and>
   combined_efficiency 1 (Inl OSError) \<lparr>eff_cache = None, LZ_itp = None\<rparr> 5
        = (Inl OSError, \<lparr>eff_cache = None, LZ_itp = None\<rparr>) \<and>
   fst (combined_efficiency 1 (Inr [[1, 2, 3]]) \<lparr>eff_cache = None, LZ_itp = None\<rparr> 5)
        = Inl TypeError \<and>
   fst (combined_efficiency 1 (Inr [[0, 10, 20], [0, 1, 1], [7, 7, 7]])
          \<lparr>eff_cache = None, LZ_itp = None\<rparr> 5) = Inr (Num (1 / 2)) \<and>
   fst (combined_efficiency 1 (Inl OSError)
          \<lparr>eff_cache = Some [[0, 10, 20], [0, 1, 1]], LZ_itp = None\<rparr> 5) = Inr (Num (1 / 2))"
proof -
  have a: "LZ_new (Inl OSError) None = Inr \<lparr>eff_cache = None, LZ_itp = None\<rparr> \<and>
   combined_efficiency 1 (Inl OSError) \<lparr>eff_cache = None, LZ_itp = None\<rparr> 5
        = (Inl OSError, \<lparr>eff_cache = None, LZ_itp = None\<rparr>)"
    using load_fails_at_first_query[of "Inl OSError" None 1 5] by simp
  have b: "fst (combined_efficiency 1 (Inr [[1, 2, 3]]) \<lparr>eff_cache = None, LZ_itp = None\<rparr> 5)
        = Inl TypeError"
    using load_fails_at_first_query[of "Inr [[1, 2, 3]]" None 1 5] by simp
  have c: "fst (combined_efficiency 1 (Inr [[0, 10, 20], [0, 1, 1], [7, 7, 7]])
          \<lparr>eff_cache = None, LZ_itp = None\<rparr> 5) = Inr (Num (1 / 2))"
    using load_fails_at_first_query[of "Inr [[0, 10, 20], [0, 1, 1], [7, 7, 7]]" None 1 5]
    by (simp add: interp1d_def itp_call_def)
  have d: "fst (combined_efficiency 1 (Inl OSError)
          \<lparr>eff_cache = Some [[0, 10, 20], [0, 1, 1]], LZ_itp = None\<rparr> 5) = Inr (Num (1 / 2))"
    using load_fails_at_first_query[of "Inl OSError" "Some [[0, 10, 20], [0, 1, 1]]" 1 5]
    by (simp add: interp1d_def itp_call_def)
  show ?thesis using a b c d by blast
qed

section \<open>The rate integrator under a vanishing efficiency\<close>

lemma wsum_zero: "\<forall>v\<in>set vals. v = Num 0 \<Longrightarrow> wsum ws vals = Num 0"
  by (induction ws vals rule: wsum.induct) auto

lemma run_plan_zero:
  assumes "nodes_within a b p"
    and "\<forall>e. a \<le> e \<and> e \<le> b \<longrightarrow>
           (\<exists>r. fst (combined_efficiency minval read_table st e) = Inr (Num r) \<and> r < 1 / 10 ^ 6)"
    and "\<forall>v\<in>set vals. v = Num 0"
  shows "fst (run_plan p (d_rate nu rate_wimp halo_model minval read_table mw lcs) vals st)
           = Inr (Num 0)"
  using assms
proof (induction p arbitrary: vals st)
  case (Done ws)
  then show ?case by (simp add: wsum_zero)
next
  case (Ask x k)
  have xin: "a \<le> x \<and> x \<le> b" and sub: "nodes_within a b (k (Num 0))" using Ask.prems(1) by auto
  obtain r where r: "fst (combined_efficiency minval read_table st x) = Inr (Num r)" "r < 1 / 10 ^ 6"
    using Ask.prems(2) xin by blast
  obtain st' where st': "combined_efficiency minval read_table st x = (Inr (Num r), st')"
    using r(1) by (cases "combined_efficiency minval read_table st x") auto
  obtain f where f: "LZ_itp st' = Some f"
    "\<forall>e'. fst (combined_efficiency minval read_table st e') = Inr (itp_call f e')"
    using ce_success[OF st'] by blast
  have h': "\<forall>e. a \<le> e \<and> e \<le> b \<longrightarrow>
           (\<exists>r. fst (combined_efficiency minval read_table st' e) = Inr (Num r) \<and> r < 1 / 10 ^ 6)"
    using Ask.prems(2) f ce_cached[OF f(1), of minval read_table] by simp
  have dr: "d_rate nu rate_wimp halo_model minval read_table mw lcs x st = (Inr (Num 0), st')"
    using st' r(2) by (simp add: d_rate_def)
  have vs: "\<forall>v\<in>set (vals @ [Num 0]). v = Num 0" using Ask.prems(3) by simp
  have "fst (run_plan (k (Num 0)) (d_rate nu rate_wimp halo_model minval read_table mw lcs)
              (vals @ [Num 0]) st') = Inr (Num 0)"
    using Ask.IH[OF rangeI sub h' vs] .
  then show ?case using dr by simp
qed

text \<open>
  Claim C6. If the quadrature asks for the integrand inside the region of interest only,
  and the efficiency query answers a value below \<open>1e-6\<close> at every energy of the region,
  then \<open>integrate_rate\<close> returns exactly 0, for every mass and cross-section and
  whatever the rate formula would do (it is a parameter of the statement and may raise
  everywhere: it is not evaluated).
\<close>

theorem zero_efficiency_zero_rate:
  assumes "nodes_within (fst e_roi) (snd e_roi) (quad (fst e_roi) (snd e_roi))"
    and "\<forall>e. fst e_roi \<le> e \<and> e \<le> snd e_roi \<longrightarrow>
           (\<exists>r. fst (combined_efficiency minval read_table st e) = Inr (Num r) \<and> r < 1 / 10 ^ 6)"
  shows "fst (integrate_rate quad nu rate_wimp halo_model minval read_table mw log_cross_section st)
           = Inr (Num 0)"
proof -
  have "fst (run_plan (quad (fst e_roi) (snd e_roi))
               (d_rate nu rate_wimp halo_model minval read_table mw log_cross_section) [] st)
          = Inr (Num 0)"
    using run_plan_zero[OF assms(1) assms(2), of "[]"] by simp
  then show ?thesis
    by (auto simp: integrate_rate_def split: prod.splits sum.splits)
qed

theorem zero_efficiency_zero_rate_witness:
  "fst (integrate_rate (\<lambda>a b. Ask ((a + b) / 2) (\<lambda>v. Done [b - a]))
          \<lparr>eV = 1, keV = 1, GeV = 1, c0 = 1, cm = 1, kg = 1, year = 1\<rparr>
          (\<lambda>es m sigma interaction mat halo. Inl LibraryError) ()
          1 (Inr [[0, 100], [0, 0]]) 50 (- 45) \<lparr>eff_cache = None, LZ_itp = None\<rparr>)
     = Inr (Num 0)"
proof -
  have e: "fst (combined_efficiency 1 (Inr [[0, 100], [0, 0]]) \<lparr>eff_cache = None, LZ_itp = None\<rparr> e)
             = Inr (Num 0)" for e :: real
    using ce_first[of "Inr [[0, 100], [0, 0]]" "[0, 100]" "[0, 0]" "[]" 1 e]
    by (simp add: itp_call_def)
  have h1: "nodes_within (fst e_roi) (snd e_roi)
              ((\<lambda>a b. Ask ((a + b) / 2) (\<lambda>v. Done [b - a])) (fst e_roi) (snd e_roi))"
    by (simp add: e_roi_def)
  have h2: "\<forall>e. fst e_roi \<le> e \<and> e \<le> snd e_roi \<longrightarrow>
           (\<exists>r. fst (combined_efficiency 1 (Inr [[0, 100], [0, 0]])
                       \<lparr>eff_cache = None, LZ_itp = None\<rparr> e) = Inr (Num r) \<and> r < 1 / 10 ^ 6)"
    using e by simp
  show ?thesis
    using zero_efficiency_zero_rate[of "\<lambda>a b. Ask ((a + b) / 2) (\<lambda>v. Done [b - a])" 1
        "Inr [[0, 100], [0, 0]]" "\<lparr>eff_cache = None, LZ_itp = None\<rparr>", OF h1 h2]
    by simp
qed

end
